theory Spec2Isabelle
  imports Main
begin

section \<open>Python strings\<close>

text \<open>
  The program is \<^verbatim>\<open>.ci/remove-json-comments.py\<close>. A Python \<^verbatim>\<open>str\<close> is a sequence of
  Unicode code points, so a character is modelled by its code point (\<^verbatim>\<open>ord\<close>) and a
  string by the list of them. \<open>py\<close> turns an ASCII literal into such a list.
\<close>

type_synonym pychar = nat
type_synonym pystr = "pychar list"

definition py :: "string \<Rightarrow> pystr" where
  "py s = map of_char s"

abbreviation TAB :: pychar where "TAB \<equiv> 9"
abbreviation LF :: pychar where "LF \<equiv> 10"
abbreviation CR :: pychar where "CR \<equiv> 13"
abbreviation QUOTE :: pychar where "QUOTE \<equiv> 34"
abbreviation STAR :: pychar where "STAR \<equiv> 42"
abbreviation COMMA :: pychar where "COMMA \<equiv> 44"
abbreviation SLASH :: pychar where "SLASH \<equiv> 47"
abbreviation BACKSLASH :: pychar where "BACKSLASH \<equiv> 92"
abbreviation RBRACKET :: pychar where "RBRACKET \<equiv> 93"
abbreviation RBRACE :: pychar where "RBRACE \<equiv> 125"
abbreviation BOM :: pychar where "BOM \<equiv> 65279"

text \<open>
  The exceptions the program can meet: \<^verbatim>\<open>IndexError\<close> from \<^verbatim>\<open>s[i]\<close> out of range,
  \<^verbatim>\<open>RecursionError\<close> from the JSON decoder, and \<^verbatim>\<open>json.JSONDecodeError\<close> with its fields
  \<^verbatim>\<open>msg\<close>, \<^verbatim>\<open>doc\<close>, \<^verbatim>\<open>pos\<close>, \<^verbatim>\<open>lineno\<close>, \<^verbatim>\<open>colno\<close>.
\<close>

datatype py_error =
    IndexError
  | RecursionError
  | JSONDecodeError (msg: pystr) (doc: pystr) (pos: nat) (lineno: nat) (colno: nat)

text \<open>\<^verbatim>\<open>s[i]\<close> for a non-negative index.\<close>

definition py_get :: "'a list \<Rightarrow> nat \<Rightarrow> py_error + 'a" where
  "py_get s i = (if i < length s then Inr (s ! i) else Inl IndexError)"

text \<open>\<^verbatim>\<open>i + 1 < len(s) and s[i + 1] == c\<close>, with Python's short-circuit \<^verbatim>\<open>and\<close>.\<close>

definition next_is :: "pystr \<Rightarrow> nat \<Rightarrow> pychar \<Rightarrow> py_error + bool" where
  "next_is s i c =
     (if i + 1 < length s
      then (case py_get s (i + 1) of Inl e \<Rightarrow> Inl e | Inr d \<Rightarrow> Inr (d = c))
      else Inr False)"

text \<open>
  \<^verbatim>\<open>str.isspace\<close> of one character, which is also what \<^verbatim>\<open>\s\<close> matches in a \<^verbatim>\<open>str\<close>
  pattern and what \<^verbatim>\<open>str.strip()\<close> removes: the Unicode white space characters.
\<close>

definition is_space :: "pychar \<Rightarrow> bool" where
  "is_space c =
     ((9 \<le> c \<and> c \<le> 13) \<or> (28 \<le> c \<and> c \<le> 32) \<or> c = 133 \<or> c = 160 \<or> c = 5760
      \<or> (8192 \<le> c \<and> c \<le> 8202) \<or> c = 8232 \<or> c = 8233 \<or> c = 8239 \<or> c = 8287
      \<or> c = 12288)"

text \<open>The line boundaries of \<^verbatim>\<open>str.splitlines\<close>.\<close>

definition is_linebreak :: "pychar \<Rightarrow> bool" where
  "is_linebreak c =
     ((10 \<le> c \<and> c \<le> 13) \<or> (28 \<le> c \<and> c \<le> 30) \<or> c = 133 \<or> c = 8232 \<or> c = 8233)"

text \<open>
  \<^verbatim>\<open>str.splitlines()\<close>: the lines without their terminators, \<^verbatim>\<open>\r\n\<close> counting as one
  terminator, and no empty last line after a final terminator.
\<close>

fun splitlines :: "pystr \<Rightarrow> pystr list" where
  "splitlines [] = []"
| "splitlines [c] = (if is_linebreak c then [[]] else [[c]])"
| "splitlines (c # d # s) =
     (if c = CR \<and> d = LF then [] # splitlines s
      else if is_linebreak c then [] # splitlines (d # s)
      else (case splitlines (d # s) of
              [] \<Rightarrow> [[c]]
            | l # ls \<Rightarrow> (c # l) # ls))"

text \<open>\<^verbatim>\<open>sep.join(xs)\<close>.\<close>

fun py_join :: "pystr \<Rightarrow> pystr list \<Rightarrow> pystr" where
  "py_join sep [] = []"
| "py_join sep [x] = x"
| "py_join sep (x # y # ys) = x @ sep @ py_join sep (y # ys)"

text \<open>\<^verbatim>\<open>s.strip()\<close> with no argument.\<close>

definition py_strip :: "pystr \<Rightarrow> pystr" where
  "py_strip s = rev (dropWhile is_space (rev (dropWhile is_space s)))"

section \<open>\<^verbatim>\<open>remove_comments_from_json_string\<close>\<close>

subsection \<open>The line-comment loop\<close>

text \<open>
  The first pass. The variables of its inner \<^verbatim>\<open>while i < len(line)\<close> loop are
  \<open>(i, in_string, escape_next, new_line)\<close>; the two flags are set before the \<^verbatim>\<open>for\<close> loop
  over the lines and nowhere else. \<open>line_body\<close> is one run of the loop body, which ends
  in \<^verbatim>\<open>i += 1\<close> or in \<^verbatim>\<open>break\<close>.
\<close>

datatype 'a flow = Continue 'a | Break 'a

type_synonym line_vars = "nat \<times> bool \<times> bool \<times> pystr"

definition line_body :: "pystr \<Rightarrow> line_vars \<Rightarrow> py_error + line_vars flow" where
  "line_body line = (\<lambda>(i, in_string, escape_next, new_line).
     case py_get line i of
       Inl e \<Rightarrow> Inl e
     | Inr char \<Rightarrow>
         if escape_next then
           Inr (Continue (i + 1, in_string, False, new_line @ [char]))
         else if char = BACKSLASH then
           Inr (Continue (i + 1, in_string, True, new_line @ [char]))
         else if char = QUOTE \<and> \<not> escape_next then
           Inr (Continue (i + 1, \<not> in_string, escape_next, new_line @ [char]))
         else
           (case (if char = SLASH then next_is line i SLASH else Inr False) of
              Inl e \<Rightarrow> Inl e
            | Inr slash2 \<Rightarrow>
                if slash2 \<and> \<not> in_string then
                  Inr (Break (i, in_string, escape_next, new_line))
                else
                  Inr (Continue (i + 1, in_string, escape_next, new_line @ [char]))))"

lemma line_body_advances:
  "line_body line (i, f) = Inr (Continue (i', f')) \<Longrightarrow> i' = i + 1"
  by (cases f) (auto simp: line_body_def split: sum.splits if_splits)

function line_loop :: "pystr \<Rightarrow> line_vars \<Rightarrow> py_error + line_vars" where
  "line_loop line (i, f) =
     (if i < length line then
        (case line_body line (i, f) of
           Inl e \<Rightarrow> Inl e
         | Inr (Break v) \<Rightarrow> Inr v
         | Inr (Continue v) \<Rightarrow> line_loop line v)
      else Inr (i, f))"
  by pat_completeness auto
termination
  by (relation "measure (\<lambda>(line, i, f). length line - i)")
    (auto dest!: line_body_advances)

text \<open>
  The \<^verbatim>\<open>for line in json_str.splitlines()\<close> loop, with its variables
  \<open>(in_string, escape_next, lines)\<close>: every line starts at \<open>i = 0\<close> with an empty
  \<open>new_line\<close> and with the flags as the line before left them.
\<close>

fun for_lines :: "pystr list \<Rightarrow> bool \<times> bool \<times> pystr list \<Rightarrow> py_error + bool \<times> bool \<times> pystr list"
  where
  "for_lines [] v = Inr v"
| "for_lines (line # rest) (in_string, escape_next, lines) =
     (case line_loop line (0, in_string, escape_next, []) of
        Inl e \<Rightarrow> Inl e
      | Inr (i, in_string', escape_next', new_line) \<Rightarrow>
          for_lines rest (in_string', escape_next', lines @ [new_line]))"

definition remove_line_comments :: "pystr \<Rightarrow> py_error + pystr" where
  "remove_line_comments json_str =
     (case for_lines (splitlines json_str) (False, False, []) of
        Inl e \<Rightarrow> Inl e
      | Inr (in_string, escape_next, lines) \<Rightarrow> Inr (py_join [LF] lines))"

subsection \<open>The block-comment loop\<close>

text \<open>
  The second \<^verbatim>\<open>while\<close> loop, over the whole text, with the variables
  \<open>(i, in_comment, in_string, escape_next, cleaned)\<close>. \<open>block_body\<close> is one run of the
  loop body; the two comment branches do \<^verbatim>\<open>i += 1\<close> twice.
\<close>

type_synonym block_vars = "nat \<times> bool \<times> bool \<times> bool \<times> pystr"

definition block_body :: "pystr \<Rightarrow> block_vars \<Rightarrow> py_error + block_vars" where
  "block_body json_str = (\<lambda>(i, in_comment, in_string, escape_next, cleaned).
     case py_get json_str i of
       Inl e \<Rightarrow> Inl e
     | Inr char \<Rightarrow>
         if escape_next then
           Inr (i + 1, in_comment, in_string, False,
                if \<not> in_comment then cleaned @ [char] else cleaned)
         else if char = BACKSLASH then
           Inr (i + 1, in_comment, in_string, True,
                if \<not> in_comment then cleaned @ [char] else cleaned)
         else if char = QUOTE \<and> \<not> escape_next then
           (if \<not> in_comment
            then Inr (i + 1, in_comment, \<not> in_string, escape_next, cleaned @ [char])
            else Inr (i + 1, in_comment, in_string, escape_next, cleaned))
         else
           (case (if char = SLASH then next_is json_str i STAR else Inr False) of
              Inl e \<Rightarrow> Inl e
            | Inr star2 \<Rightarrow>
                if star2 \<and> \<not> in_string then
                  Inr (i + 1 + 1, True, in_string, escape_next, cleaned)
                else
                  (case (if char = STAR then next_is json_str i SLASH else Inr False) of
                     Inl e \<Rightarrow> Inl e
                   | Inr slash2 \<Rightarrow>
                       if slash2 \<and> in_comment then
                         Inr (i + 1 + 1, False, in_string, escape_next, cleaned)
                       else if \<not> in_comment then
                         Inr (i + 1, in_comment, in_string, escape_next, cleaned @ [char])
                       else
                         Inr (i + 1, in_comment, in_string, escape_next, cleaned))))"

lemma block_body_advances:
  "block_body json_str (i, f) = Inr (i', f') \<Longrightarrow> i < i'"
  by (cases f) (auto simp: block_body_def split: sum.splits if_splits)

function block_loop :: "pystr \<Rightarrow> block_vars \<Rightarrow> py_error + block_vars" where
  "block_loop json_str (i, f) =
     (if i < length json_str then
        (case block_body json_str (i, f) of
           Inl e \<Rightarrow> Inl e
         | Inr v \<Rightarrow> block_loop json_str v)
      else Inr (i, f))"
  by pat_completeness auto
termination
  by (relation "measure (\<lambda>(json_str, i, f). length json_str - i)")
    (auto dest!: block_body_advances)

definition remove_block_comments :: "pystr \<Rightarrow> py_error + pystr" where
  "remove_block_comments json_str =
     (case block_loop json_str (0, False, False, False, []) of
        Inl e \<Rightarrow> Inl e
      | Inr (i, in_comment, in_string, escape_next, cleaned) \<Rightarrow> Inr cleaned)"

text \<open>
  The loop heads a scan passes through: \<open>line_reach line v0 v\<close> when the \<^verbatim>\<open>while\<close> loop
  over \<open>line\<close>, entered with the variables \<open>v0\<close>, tests its condition with the variables
  \<open>v\<close>; \<open>block_reach\<close> likewise for the second loop.
\<close>

inductive line_reach :: "pystr \<Rightarrow> line_vars \<Rightarrow> line_vars \<Rightarrow> bool" for line v0 where
  line_start: "line_reach line v0 v0"
| line_next: "line_reach line v0 (i, f) \<Longrightarrow> i < length line \<Longrightarrow>
     line_body line (i, f) = Inr (Continue v) \<Longrightarrow> line_reach line v0 v"

inductive block_reach :: "pystr \<Rightarrow> block_vars \<Rightarrow> bool" for json_str where
  block_start: "block_reach json_str (0, False, False, False, [])"
| block_next: "block_reach json_str (i, f) \<Longrightarrow> i < length json_str \<Longrightarrow>
     block_body json_str (i, f) = Inr v \<Longrightarrow> block_reach json_str v"

subsection \<open>Trailing commas\<close>

text \<open>
  \<^verbatim>\<open>re.sub(r',(\s*[}\]])', r'\1', json_str)\<close>. \<open>match_group\<close> matches the group
  \<^verbatim>\<open>\s*[}\]]\<close> at the head of a text and returns the matched text and what follows it:
  as a closing bracket is no white space, the greedy \<^verbatim>\<open>\s*\<close> has one way to match.
  \<open>re_sub\<close> is the substitution: leftmost matches, none overlapping, each
  replaced by its group, the scan going on after the match.
\<close>

fun match_group :: "pystr \<Rightarrow> (pystr \<times> pystr) option" where
  "match_group [] = None"
| "match_group (c # s) =
     (if is_space c then
        (case match_group s of None \<Rightarrow> None | Some (g, rest) \<Rightarrow> Some (c # g, rest))
      else if c = RBRACE \<or> c = RBRACKET then Some ([c], s)
      else None)"

lemma match_group_shorter: "match_group s = Some (g, rest) \<Longrightarrow> length rest < length s"
  by (induction s arbitrary: g rest) (auto split: if_splits option.splits)

function re_sub :: "pystr \<Rightarrow> pystr" where
  "re_sub [] = []"
| "re_sub (c # s) =
     (if c = COMMA then
        (case match_group s of
           Some (g, rest) \<Rightarrow> g @ re_sub rest
         | None \<Rightarrow> c # re_sub s)
      else c # re_sub s)"
  by pat_completeness auto
termination
  by (relation "measure length") (auto dest: match_group_shorter)

subsection \<open>Empty lines, and the whole function\<close>

definition remove_empty_lines :: "pystr \<Rightarrow> pystr" where
  "remove_empty_lines json_str =
     py_join [LF] (filter (\<lambda>line. py_strip line \<noteq> []) (splitlines json_str))"

definition remove_comments_from_json_string :: "pystr \<Rightarrow> py_error + pystr" where
  "remove_comments_from_json_string json_str =
     (case remove_line_comments json_str of
        Inl e \<Rightarrow> Inl e
      | Inr s1 \<Rightarrow>
          (case remove_block_comments s1 of
             Inl e \<Rightarrow> Inl e
           | Inr s2 \<Rightarrow> Inr (remove_empty_lines (re_sub s2))))"

section \<open>The first lines of \<^verbatim>\<open>clean_json_content\<close>\<close>

text \<open>
  \<^verbatim>\<open>if content.startswith('\ufeff'): content = content[1:]\<close>, then
  \<^verbatim>\<open>content.replace('\x00', '')\<close>, then the filter that keeps a character when
  \<^verbatim>\<open>ord(char) >= 32 or char in '\n\r\t'\<close>.
\<close>

definition strip_bom :: "pystr \<Rightarrow> pystr" where
  "strip_bom content = (case content of c # s \<Rightarrow> if c = BOM then s else content | [] \<Rightarrow> content)"

definition keep_char :: "pychar \<Rightarrow> bool" where
  "keep_char char = (32 \<le> char \<or> char = LF \<or> char = CR \<or> char = TAB)"

definition preprocess :: "pystr \<Rightarrow> pystr" where
  "preprocess content = filter keep_char (filter (\<lambda>c. c \<noteq> 0) (strip_bom content))"


section \<open>The two loops as functions on the rest of the text\<close>

text \<open>
  For the proofs, each loop is described by a function that recurses on the characters
  still to be read: \<open>line_view\<close> gives the characters a line scan appends and the flags
  it ends with, \<open>block_view\<close> the characters the block scan appends. The lemmas
  \<open>line_loop_view\<close> and \<open>block_loop_view\<close> show that the loops compute exactly these,
  and never raise \<^verbatim>\<open>IndexError\<close>.
\<close>

declare line_loop.simps [simp del] block_loop.simps [simp del]

definition head_is :: "pychar \<Rightarrow> pystr \<Rightarrow> bool" where
  "head_is c s = (case s of [] \<Rightarrow> False | d # _ \<Rightarrow> d = c)"

lemma head_is_simps [simp]: "head_is c [] = False" "head_is c (d # s) = (d = c)"
  by (simp_all add: head_is_def)

definition put :: "pychar \<Rightarrow> pystr \<times> bool \<times> bool \<Rightarrow> pystr \<times> bool \<times> bool" where
  "put c r = (c # fst r, snd r)"

fun line_view :: "bool \<times> bool \<Rightarrow> pystr \<Rightarrow> pystr \<times> bool \<times> bool" where
  "line_view (ins, esc) [] = ([], ins, esc)"
| "line_view (ins, esc) (c # s) =
     (if esc then put c (line_view (ins, False) s)
      else if c = BACKSLASH then put c (line_view (ins, True) s)
      else if c = QUOTE then put c (line_view (\<not> ins, False) s)
      else if c = SLASH \<and> head_is SLASH s \<and> \<not> ins then ([], ins, False)
      else put c (line_view (ins, False) s))"

lemma py_get_in [simp]: "i < length s \<Longrightarrow> py_get s i = Inr (s ! i)"
  by (simp add: py_get_def)

lemma next_is_drop: "i < length s \<Longrightarrow> next_is s i c = Inr (head_is c (drop (Suc i) s))"
  by (cases "drop (Suc i) s")
    (auto simp: next_is_def hd_drop_conv_nth[symmetric] dest: arg_cong[where f=hd])

lemma line_loop_view:
  "map_sum id snd (line_loop line (i, ins, esc, acc)) =
     Inr (fst (snd (line_view (ins, esc) (drop i line))),
          snd (snd (line_view (ins, esc) (drop i line))),
          acc @ fst (line_view (ins, esc) (drop i line)))"
proof (induction "length line - i" arbitrary: i ins esc acc rule: less_induct)
  case less
  show ?case
  proof (cases "i < length line")
    case False
    then show ?thesis by (subst line_loop.simps) simp
  next
    case True
    then have d: "drop i line = line ! i # drop (Suc i) line"
      by (simp add: Cons_nth_drop_Suc)
    have IH: "\<And>ins esc acc. map_sum id snd (line_loop line (Suc i, ins, esc, acc)) =
        Inr (fst (snd (line_view (ins, esc) (drop (Suc i) line))),
          snd (snd (line_view (ins, esc) (drop (Suc i) line))),
          acc @ fst (line_view (ins, esc) (drop (Suc i) line)))"
      using True by (intro less) simp
    from True show ?thesis
      by (subst line_loop.simps) (simp add: d line_body_def next_is_drop put_def IH)
  qed
qed

lemma line_loop_result:
  "\<exists>j. line_loop line (i, ins, esc, acc) =
     Inr (j, fst (snd (line_view (ins, esc) (drop i line))),
          snd (snd (line_view (ins, esc) (drop i line))),
          acc @ fst (line_view (ins, esc) (drop i line)))"
  using line_loop_view [of line i ins esc acc]
  by (cases "line_loop line (i, ins, esc, acc)") auto

fun lines_view :: "bool \<times> bool \<Rightarrow> pystr list \<Rightarrow> pystr list \<times> bool \<times> bool" where
  "lines_view st [] = ([], st)"
| "lines_view st (l # ls) =
     (fst (line_view st l) # fst (lines_view (snd (line_view st l)) ls),
      snd (lines_view (snd (line_view st l)) ls))"

lemma for_lines_view:
  "for_lines ls (ins, esc, acc) =
     Inr (fst (snd (lines_view (ins, esc) ls)), snd (snd (lines_view (ins, esc) ls)),
          acc @ fst (lines_view (ins, esc) ls))"
proof (induction ls arbitrary: ins esc acc)
  case Nil
  show ?case by simp
next
  case (Cons l ls)
  obtain j where "line_loop l (0, ins, esc, []) =
     Inr (j, fst (snd (line_view (ins, esc) l)), snd (snd (line_view (ins, esc) l)),
          fst (line_view (ins, esc) l))"
    using line_loop_result [of l 0 ins esc "[]"] by auto
  then show ?case
    by (simp add: Cons.IH)
qed

lemma remove_line_comments_view:
  "remove_line_comments s = Inr (py_join [LF] (fst (lines_view (False, False) (splitlines s))))"
  by (simp add: remove_line_comments_def for_lines_view)

definition out :: "bool \<Rightarrow> pychar \<Rightarrow> pystr \<Rightarrow> pystr" where
  "out in_comment c s = (if in_comment then s else c # s)"

fun block_view :: "bool \<times> bool \<times> bool \<Rightarrow> pystr \<Rightarrow> pystr" where
  "block_view st [] = []"
| "block_view (inc, ins, esc) (c # s) =
     (if esc then out inc c (block_view (inc, ins, False) s)
      else if c = BACKSLASH then out inc c (block_view (inc, ins, True) s)
      else if c = QUOTE then
        out inc c (block_view (inc, (if inc then ins else \<not> ins), False) s)
      else if c = SLASH \<and> head_is STAR s \<and> \<not> ins then
        block_view (True, ins, False) (drop 1 s)
      else if c = STAR \<and> head_is SLASH s \<and> inc then
        block_view (False, ins, False) (drop 1 s)
      else out inc c (block_view (inc, ins, False) s))"

lemma block_loop_view:
  "map_sum id (\<lambda>(i, inc, ins, esc, cleaned). cleaned) (block_loop s (i, inc, ins, esc, acc)) =
     Inr (acc @ block_view (inc, ins, esc) (drop i s))"
proof (induction "length s - i" arbitrary: i inc ins esc acc rule: less_induct)
  case less
  show ?case
  proof (cases "i < length s")
    case False
    then show ?thesis by (subst block_loop.simps) simp
  next
    case True
    then have d: "drop i s = s ! i # drop (Suc i) s"
      by (simp add: Cons_nth_drop_Suc)
    have IH: "\<And>k inc ins esc acc. i < k \<Longrightarrow>
       map_sum id (\<lambda>(i, inc, ins, esc, cleaned). cleaned)
         (block_loop s (k, inc, ins, esc, acc)) =
       Inr (acc @ block_view (inc, ins, esc) (drop k s))"
      using True by (intro less) auto
    from True show ?thesis
      by (subst block_loop.simps) (auto simp: d block_body_def next_is_drop out_def IH)
  qed
qed

lemma remove_block_comments_view:
  "remove_block_comments s = Inr (block_view (False, False, False) s)"
  using block_loop_view [of s 0 False False False "[]"]
  by (cases "block_loop s (0, False, False, False, [])")
    (auto simp: remove_block_comments_def)

section \<open>The block-comment scan and \<^verbatim>\<open>*/\<close>\<close>

text \<open>
  C2. The claim: once an unquoted \<^verbatim>\<open>/*\<close> has opened a comment, the comment ends at the
  first \<^verbatim>\<open>*/\<close> that follows, and no \<^verbatim>\<open>*/\<close> inside an open comment is skipped. The loop
  does skip one in two cases. A backslash inside the comment sets \<open>escape_next\<close>, so the
  \<^verbatim>\<open>*\<close> of a \<^verbatim>\<open>*/\<close> right after it is taken as an escaped character; and a \<^verbatim>\<open>/\<close> inside
  the comment that is followed by \<^verbatim>\<open>*\<close> is taken as a new opening, which consumes that
  \<^verbatim>\<open>*\<close>. In both inputs below the comment is closed by the first \<^verbatim>\<open>*/\<close> after its
  opening, and \<^verbatim>\<open>{}\<close> follows it; the scan discards \<^verbatim>\<open>{}\<close> as well. The third
  input shows the scan on a comment without either case.
\<close>

theorem block_comment_close_skipped:
  \<open>remove_block_comments (py ''/*'' @ [BACKSLASH] @ py ''*/{}'') = Inr []
   \<and> remove_block_comments (py ''/*/*/{}'') = Inr []
   \<and> remove_block_comments (py ''/*a*/{}'') = Inr (py ''{}'')\<close>
  by (simp add: remove_block_comments_view py_def out_def)

section \<open>Trailing commas\<close>

text \<open>
  \<open>has_trailing_comma s\<close>: somewhere in \<open>s\<close> a comma is followed only by white space and
  then a closing bracket. \<open>has_double_trailing s\<close>: somewhere in \<open>s\<close> a comma is followed
  only by white space, then another comma, then only white space and a closing bracket.
\<close>

fun has_trailing_comma :: "pystr \<Rightarrow> bool" where
  "has_trailing_comma [] = False"
| "has_trailing_comma (c # s) = ((c = COMMA \<and> match_group s \<noteq> None) \<or> has_trailing_comma s)"

fun has_double_trailing :: "pystr \<Rightarrow> bool" where
  "has_double_trailing [] = False"
| "has_double_trailing (c # s) =
     ((c = COMMA \<and>
       (case dropWhile is_space s of
          [] \<Rightarrow> False
        | d # r \<Rightarrow> d = COMMA \<and> match_group r \<noteq> None))
      \<or> has_double_trailing s)"

lemma comma_not_space [simp]: "\<not> is_space COMMA"
  by (simp add: is_space_def)

lemma match_group_split:
  "match_group s = Some (g, rest) \<Longrightarrow> s = g @ rest \<and> COMMA \<notin> set g"
  by (induction s arbitrary: g rest) (auto split: if_splits option.splits)

lemma match_group_append:
  "match_group s = Some (g, rest) \<Longrightarrow> match_group (g @ t) = Some (g, t)"
  by (induction s arbitrary: g rest) (auto split: if_splits option.splits)

lemma re_sub_no_comma: "COMMA \<notin> set g \<Longrightarrow> re_sub (g @ rest) = g @ re_sub rest"
  by (induction g) auto

text \<open>
  The scan may as well go on inside a match: the matched group holds no comma, so no
  match starts in it. The substitution drops exactly the commas that are followed, in
  the text it is given, by white space and a closing bracket.
\<close>

lemma re_sub_Cons:
  "re_sub (c # s) = (if c = COMMA \<and> match_group s \<noteq> None then re_sub s else c # re_sub s)"
proof (cases "match_group s")
  case None
  then show ?thesis by simp
next
  case (Some p)
  obtain g rest where p: "p = (g, rest)" by (cases p)
  from Some p have "re_sub s = g @ re_sub rest"
    using match_group_split [of s g rest] re_sub_no_comma [of g rest] by simp
  with Some p show ?thesis by simp
qed

text \<open>
  The result starts with white space and a closing bracket exactly when the text does,
  or when the text starts with white space and a comma that the substitution drops.
\<close>

lemma match_group_re_sub_iff:
  "(match_group (re_sub s) \<noteq> None) =
     (match_group s \<noteq> None \<or>
      (case dropWhile is_space s of
         [] \<Rightarrow> False
       | d # r \<Rightarrow> d = COMMA \<and> match_group r \<noteq> None))"
proof (induction s)
  case Nil
  show ?case by simp
next
  case (Cons c s)
  show ?case
  proof (cases "c = COMMA")
    case True
    show ?thesis
    proof (cases "match_group s")
      case None
      with True show ?thesis by (simp add: re_sub_Cons del: re_sub.simps)
    next
      case (Some p)
      obtain g rest where p: "p = (g, rest)" by (cases p)
      from Some p have "re_sub s = g @ re_sub rest"
        using match_group_split [of s g rest] re_sub_no_comma [of g rest] by simp
      moreover from Some p have "match_group (g @ re_sub rest) = Some (g, re_sub rest)"
        using match_group_append [of s g rest] by simp
      ultimately show ?thesis using True Some by (simp add: re_sub_Cons del: re_sub.simps)
    qed
  next
    case False
    with Cons show ?thesis
      by (auto simp: re_sub_Cons simp del: re_sub.simps split: option.splits)
  qed
qed

lemma match_group_not_comma:
  "match_group s \<noteq> None \<Longrightarrow>
     \<not> (case dropWhile is_space s of [] \<Rightarrow> False | d # r \<Rightarrow> d = COMMA \<and> match_group r \<noteq> None)"
  by (induction s) (auto split: if_splits option.splits)

text \<open>
  C4, as claimed: after the substitution no comma is followed only by white space and a
  closing bracket. It fails on \<^verbatim>\<open>,,}\<close>: the first comma is followed by a comma and stays,
  the second is removed, and the result \<^verbatim>\<open>,}\<close> has a trailing comma again.
\<close>

theorem trailing_comma_left_counterexample:
  \<open>re_sub (py '',,}'') = py '',}'' \<and> has_trailing_comma (re_sub (py '',,}''))\<close>
  by (simp add: py_def is_space_def)

text \<open>
  C4, amended: the one pass removes every comma that is followed only by white space
  and a closing bracket, and its result still has such a comma exactly when the text it
  was given has a comma followed only by white space, another comma, white space and a
  closing bracket. So on every other text, also one with \<^verbatim>\<open>,,\<close> elsewhere, no trailing
  comma is left.
\<close>

theorem trailing_comma_left_iff:
  "has_trailing_comma (re_sub s) = has_double_trailing s"
proof (induction s)
  case Nil
  show ?case by simp
next
  case (Cons c s)
  show ?case
  proof (cases "c = COMMA \<and> match_group s \<noteq> None")
    case True
    with Cons match_group_not_comma [of s] show ?thesis
      by (simp add: re_sub_Cons del: re_sub.simps)
  next
    case False
    have "(c = COMMA \<and> match_group (re_sub s) \<noteq> None) =
          (c = COMMA \<and>
           (case dropWhile is_space s of
              [] \<Rightarrow> False
            | d # r \<Rightarrow> d = COMMA \<and> match_group r \<noteq> None))"
      using False unfolding match_group_re_sub_iff by blast
    moreover have "re_sub (c # s) = c # re_sub s"
      using False by (simp only: re_sub_Cons if_False)
    ultimately show ?thesis
      using Cons by (simp only: has_trailing_comma.simps has_double_trailing.simps)
  qed
qed

theorem trailing_comma_left_iff_witness:
  \<open>\<not> has_double_trailing (py ''[1,,2, "a,,b" , ] ,}'')
   \<and> \<not> has_trailing_comma (re_sub (py ''[1,,2, "a,,b" , ] ,}''))
   \<and> re_sub (py ''[1,,2, "a,,b" , ] ,}'') = py ''[1,,2, "a,,b"  ] }''\<close>
  using trailing_comma_left_iff [of \<open>py ''[1,,2, "a,,b" , ] ,}''\<close>]
  by (simp add: py_def is_space_def)

section \<open>The preprocessing of \<^verbatim>\<open>clean_json_content\<close>\<close>

text \<open>
  C9, as claimed: the text handed to the comment strippers carries no byte-order mark.
  Only \<^verbatim>\<open>content[1:]\<close> removes one, once: of two marks at the start the second stays, and
  is the first character of the text handed on.
\<close>

theorem second_bom_kept_counterexample:
  \<open>preprocess ([BOM, BOM] @ py ''{}'') = BOM # py ''{}''\<close>
  by (simp add: preprocess_def strip_bom_def keep_char_def py_def)

text \<open>
  C9, amended: for every raw input the text handed to the comment strippers has no
  character below 32 other than newline, carriage return and tab, and no null
  character; it is the raw input without its first character if that is a byte-order
  mark, and without the characters below 32 other than newline, carriage return and
  tab, every other character, also every other U+FEFF, handed on in its place.
\<close>

theorem preprocess_sanitizes:
  "list_all (\<lambda>c. 32 \<le> c \<or> c = LF \<or> c = CR \<or> c = TAB) (preprocess raw)
   \<and> 0 \<notin> set (preprocess raw)
   \<and> preprocess raw =
       filter (\<lambda>c. 32 \<le> c \<or> c = LF \<or> c = CR \<or> c = TAB)
         (drop (if head_is BOM raw then 1 else 0) raw)"
proof -
  have "preprocess raw =
       filter (\<lambda>c. 32 \<le> c \<or> c = LF \<or> c = CR \<or> c = TAB)
         (drop (if head_is BOM raw then 1 else 0) raw)"
    by (cases raw) (auto simp: preprocess_def strip_bom_def keep_char_def intro!: filter_cong)
  moreover have "list_all (\<lambda>c. 32 \<le> c \<or> c = LF \<or> c = CR \<or> c = TAB) (preprocess raw)"
    by (simp add: preprocess_def keep_char_def list_all_iff)
  moreover have "0 \<notin> set (preprocess raw)"
    by (simp add: preprocess_def)
  ultimately show ?thesis by blast
qed

section \<open>The flags at the start of a line\<close>

text \<open>
  The flags with which the scan of line \<open>k\<close> starts are the ones the \<^verbatim>\<open>for\<close> loop holds
  after the lines before it, \<open>for_lines (take k lines) (False, False, [])\<close>.
\<close>

lemma for_lines_append:
  "for_lines (xs @ ys) v = (case for_lines xs v of Inl e \<Rightarrow> Inl e | Inr v' \<Rightarrow> for_lines ys v')"
proof (induction xs arbitrary: v)
  case Nil
  show ?case by simp
next
  case (Cons l xs)
  obtain a b c where v: "v = (a, b, c)" by (cases v)
  show ?case
    by (simp add: v Cons.IH split: sum.splits prod.splits)
qed

lemma line_view_escape_end:
  "snd (snd (line_view (ins, esc) l)) \<Longrightarrow> (l = [] \<and> esc) \<or> (l \<noteq> [] \<and> last l = BACKSLASH)"
proof (induction l arbitrary: ins esc)
  case Nil
  then show ?case by simp
next
  case (Cons c l)
  have "\<exists>ins' esc'. snd (snd (line_view (ins', esc') l)) \<and> (esc' \<longrightarrow> c = BACKSLASH)"
    using Cons.prems by (auto simp: put_def split: if_splits)
  then obtain ins' esc' where e: "snd (snd (line_view (ins', esc') l))"
    and b: "esc' \<longrightarrow> c = BACKSLASH" by blast
  from Cons.IH [OF e] b show ?case by auto
qed

lemma line_view_no_quote:
  "QUOTE \<notin> set l \<Longrightarrow> fst (snd (line_view (ins, esc) l)) = ins"
  by (induction l arbitrary: ins esc) (auto simp: put_def)

text \<open>
  C3, as claimed: \<open>escape_next\<close> is false at the start of every line. The text below has
  two lines: a single backslash, and \<^verbatim>\<open>"//x\<close>. After the first line the loop holds
  \<open>escape_next = True\<close>, so the quote that starts the second line is read as an escaped
  character, \<open>in_string\<close> stays false and \<^verbatim>\<open>//x\<close> is cut off as a comment.
\<close>

theorem escape_next_carried_counterexample:
  \<open>for_lines (take 1 (splitlines ([BACKSLASH, LF] @ py ''"//x''))) (False, False, [])
     = Inr (False, True, [[BACKSLASH]])
   \<and> remove_line_comments ([BACKSLASH, LF] @ py ''"//x'') = Inr [BACKSLASH, LF, QUOTE]\<close>
  by (simp add: for_lines_view remove_line_comments_view py_def is_linebreak_def put_def)

text \<open>
  C3, amended: both flags are false at the start of the first line and neither is reset
  at a later line start: line \<open>k\<close> is scanned from the flags the lines before it left,
  and the next line starts with the flags this scan ends with. So \<open>escape_next\<close> is true
  at the start of a line only if the line before ends with a backslash, or is empty and
  was itself started with \<open>escape_next\<close> true; and \<open>in_string\<close> keeps its value over a
  line without a quote.
\<close>

theorem line_flags_carried:
  assumes "k < length lines"
    and "for_lines (take k lines) (False, False, []) = Inr (in_string, escape_next, acc)"
  shows "\<exists>j in_string' escape_next' new_line.
      line_loop (lines ! k) (0, in_string, escape_next, []) =
        Inr (j, in_string', escape_next', new_line)
    \<and> for_lines (take (Suc k) lines) (False, False, []) =
        Inr (in_string', escape_next', acc @ [new_line])
    \<and> (escape_next' \<longrightarrow>
         (lines ! k = [] \<and> escape_next) \<or> (lines ! k \<noteq> [] \<and> last (lines ! k) = BACKSLASH))
    \<and> (QUOTE \<notin> set (lines ! k) \<longrightarrow> in_string' = in_string)"
proof -
  let ?l = "lines ! k"
  let ?r = "line_view (in_string, escape_next) ?l"
  obtain j where j: "line_loop ?l (0, in_string, escape_next, []) =
      Inr (j, fst (snd ?r), snd (snd ?r), fst ?r)"
    using line_loop_result [of ?l 0 in_string escape_next "[]"] by auto
  have t: "take (Suc k) lines = take k lines @ [?l]"
    using assms(1) by (simp add: take_Suc_conv_app_nth)
  have "for_lines (take (Suc k) lines) (False, False, []) =
      Inr (fst (snd ?r), snd (snd ?r), acc @ [fst ?r])"
    by (simp add: t for_lines_append assms(2) j)
  moreover have "snd (snd ?r) \<longrightarrow> (?l = [] \<and> escape_next) \<or> (?l \<noteq> [] \<and> last ?l = BACKSLASH)"
    using line_view_escape_end [of in_string escape_next ?l] by blast
  moreover have "QUOTE \<notin> set ?l \<longrightarrow> fst (snd ?r) = in_string"
    by (simp add: line_view_no_quote)
  ultimately show ?thesis using j by blast
qed

theorem line_flags_carried_witness:
  \<open>(1::nat) < length [[BACKSLASH], py ''"//x'']
   \<and> for_lines (take 1 [[BACKSLASH], py ''"//x'']) (False, False, [])
       = Inr (False, True, [[BACKSLASH]])
   \<and> for_lines (take (Suc 1) [[BACKSLASH], py ''"//x'']) (False, False, [])
       = Inr (False, False, [[BACKSLASH], [QUOTE]])\<close>
proof -
  have a: \<open>(1::nat) < length [[BACKSLASH], py ''"//x'']\<close> by simp
  have b: \<open>for_lines (take 1 [[BACKSLASH], py ''"//x'']) (False, False, [])
      = Inr (False, True, [[BACKSLASH]])\<close>
    by (simp add: for_lines_view put_def)
  from line_flags_carried [OF a b] a b show ?thesis
    by (simp add: for_lines_view put_def py_def)
qed

section \<open>The flag \<open>escape_next\<close>\<close>

text \<open>
  \<open>backslash_run s i\<close> is the number of consecutive backslashes that end right before
  index \<open>i\<close> of \<open>s\<close>.
\<close>

definition backslash_run :: "pystr \<Rightarrow> nat \<Rightarrow> nat" where
  "backslash_run s i = length (takeWhile (\<lambda>c. c = BACKSLASH) (rev (take i s)))"

lemma backslash_run_0 [simp]: "backslash_run s 0 = 0"
  by (simp add: backslash_run_def)

lemma backslash_run_Suc:
  "i < length s \<Longrightarrow>
   backslash_run s (Suc i) = (if s ! i = BACKSLASH then Suc (backslash_run s i) else 0)"
  by (simp add: backslash_run_def take_Suc_conv_app_nth)

lemma backslash_run_le: "backslash_run s i \<le> i"
proof -
  have "backslash_run s i \<le> length (rev (take i s))"
    unfolding backslash_run_def by (rule length_takeWhile_le)
  then show ?thesis by simp
qed

lemma next_is_True: "next_is s i c = Inr True \<Longrightarrow> i + 1 < length s \<and> s ! (i + 1) = c"
  by (auto simp: next_is_def py_get_def split: if_splits)

lemma head_is_drop: "head_is c (drop k s) = (k < length s \<and> s ! k = c)"
proof (cases "k < length s")
  case True
  then have "drop k s = s ! k # drop (Suc k) s" by (simp add: Cons_nth_drop_Suc)
  with True show ?thesis by simp
next
  case False
  then show ?thesis by simp
qed

lemma block_body_escape:
  assumes "i < length s"
    and "block_body s (i, inc, ins, esc, cl) = Inr (i', inc', ins', esc', cl')"
  shows "(i' = Suc i \<and> esc' = (\<not> esc \<and> s ! i = BACKSLASH))
       \<or> (i' = Suc (Suc i) \<and> Suc i < length s \<and> \<not> esc' \<and> s ! Suc i \<noteq> BACKSLASH)"
proof (cases "esc \<or> s ! i = BACKSLASH \<or> s ! i = QUOTE")
  case True
  with assms show ?thesis
    by (auto simp: block_body_def split: if_splits)
next
  case False
  with assms show ?thesis
    by (simp add: block_body_def next_is_drop head_is_drop split: if_splits)
qed

lemma line_body_escape:
  assumes "i < length s"
    and "line_body s (i, ins, esc, nl) = Inr (Continue (i', ins', esc', nl'))"
  shows "i' = Suc i \<and> esc' = (\<not> esc \<and> s ! i = BACKSLASH)"
proof (cases "esc \<or> s ! i = BACKSLASH \<or> s ! i = QUOTE")
  case True
  with assms show ?thesis
    by (auto simp: line_body_def split: if_splits)
next
  case False
  with assms show ?thesis
    by (simp add: line_body_def next_is_drop head_is_drop split: if_splits)
qed

lemma block_reach_escape:
  "block_reach s v \<Longrightarrow>
     fst v \<le> length s \<and> fst (snd (snd (snd v))) = odd (backslash_run s (fst v))"
proof (induction rule: block_reach.induct)
  case block_start
  show ?case by simp
next
  case (block_next i f v)
  obtain inc ins esc cl where f: "f = (inc, ins, esc, cl)" by (cases f) auto
  obtain i' inc' ins' esc' cl' where v: "v = (i', inc', ins', esc', cl')" by (cases v) auto
  from block_next.IH have esc: "esc = odd (backslash_run s i)" by (simp add: f)
  from block_body_escape [OF block_next.hyps(2) block_next.hyps(3) [unfolded f v]]
  show ?case
  proof
    assume "i' = Suc i \<and> esc' = (\<not> esc \<and> s ! i = BACKSLASH)"
    then show ?thesis
      using block_next.hyps(2) esc by (simp add: v backslash_run_Suc)
  next
    assume a: "i' = Suc (Suc i) \<and> Suc i < length s \<and> \<not> esc' \<and> s ! Suc i \<noteq> BACKSLASH"
    then have "backslash_run s (Suc (Suc i)) = 0"
      by (simp add: backslash_run_Suc)
    with a show ?thesis by (simp add: v)
  qed
qed

lemma line_reach_escape:
  "line_reach s (0, ins0, esc0, nl0) v \<Longrightarrow>
     (case v of (i, ins, esc, nl) \<Rightarrow>
        i \<le> length s \<and>
        esc = (if backslash_run s i = i then odd i \<noteq> esc0 else odd (backslash_run s i)))"
proof (induction rule: line_reach.induct)
  case line_start
  show ?case by simp
next
  case (line_next i f v)
  obtain ins esc nl where f: "f = (ins, esc, nl)" by (cases f) auto
  obtain i' ins' esc' nl' where v: "v = (i', ins', esc', nl')" by (cases v) auto
  from line_next.IH have esc: "esc =
       (if backslash_run s i = i then odd i \<noteq> esc0 else odd (backslash_run s i))"
    by (simp add: f)
  from line_body_escape [OF line_next.hyps(2) line_next.hyps(3) [unfolded f v]]
  have i': "i' = Suc i" and esc': "esc' = (\<not> esc \<and> s ! i = BACKSLASH)" by auto
  have le: "Suc i \<le> length s" using line_next.hyps(2) by simp
  note run = backslash_run_Suc [OF line_next.hyps(2)]
  show ?case
  proof (cases "s ! i = BACKSLASH")
    case False
    with le show ?thesis
      by (simp add: v i' esc' run)
  next
    case True
    show ?thesis
    proof (cases "backslash_run s i = i")
      case r: True
      with True esc le show ?thesis by (simp add: v i' esc' run)
    next
      case r: False
      with True esc le show ?thesis by (simp add: v i' esc' run)
    qed
  qed
qed


lemma block_reach_example: "block_reach [BACKSLASH, QUOTE] (1, False, False, True, [BACKSLASH])"
  by (rule block_next [OF block_start]) (simp_all add: block_body_def)

lemma line_reach_example: "line_reach [BACKSLASH, QUOTE] (0, False, False, []) (1, False, True, [BACKSLASH])"
  by (rule line_next [OF line_start]) (simp_all add: line_body_def)

text \<open>
  C6, as claimed: \<open>escape_next\<close> is true only after a backslash that stands inside a
  string. Both loops test the backslash before they look at \<open>in_string\<close>: on a text that
  starts with a backslash, each loop reaches index 1 with \<open>escape_next\<close> true and
  \<open>in_string\<close> false. In the line scan the quote that follows is then no string start,
  and \<^verbatim>\<open>//x\<close> after it is cut as a comment.
\<close>

theorem escape_outside_string_counterexample:
  \<open>block_reach [BACKSLASH, QUOTE] (1, False, False, True, [BACKSLASH])
   \<and> line_reach [BACKSLASH, QUOTE] (0, False, False, []) (1, False, True, [BACKSLASH])
   \<and> remove_line_comments ([BACKSLASH] @ py ''"//x'') = Inr [BACKSLASH, QUOTE]\<close>
  using block_reach_example line_reach_example
  by (simp add: remove_line_comments_view py_def put_def is_linebreak_def)

text \<open>
  C6, amended: at every loop head of both scans, \<open>escape_next\<close> is true exactly when the
  character to be read follows an unescaped backslash, that is, when the backslashes
  right before it are odd in number, whether they stand inside or outside a string
  (and, in the block scan, inside or outside a comment); the character read with
  \<open>escape_next\<close> true clears it. In the line scan, a run of backslashes that starts the
  line is counted on from the flag the line was entered with.
\<close>

theorem escape_next_parity:
  "(block_reach json_str (i, in_comment, in_string, escape_next, cleaned) \<longrightarrow>
      escape_next = odd (backslash_run json_str i))
   \<and> (line_reach line (0, in_string0, escape0, []) (j, in_string', escape_next', new_line) \<longrightarrow>
      escape_next' =
        (if backslash_run line j = j then odd j \<noteq> escape0 else odd (backslash_run line j)))"
  using block_reach_escape [of json_str "(i, in_comment, in_string, escape_next, cleaned)"]
    line_reach_escape [of line in_string0 escape0 "[]" "(j, in_string', escape_next', new_line)"]
  by simp

theorem escape_next_parity_witness:
  "block_reach [BACKSLASH, QUOTE] (1, False, False, True, [BACKSLASH])
   \<and> odd (backslash_run [BACKSLASH, QUOTE] 1)
   \<and> line_reach [BACKSLASH, QUOTE] (0, False, False, []) (1, False, True, [BACKSLASH])"
  using escape_next_parity [of "[BACKSLASH, QUOTE]" 1 False False True "[BACKSLASH]"
      "[BACKSLASH, QUOTE]" False False 1 False True "[BACKSLASH]"] block_reach_example line_reach_example
  by simp

section \<open>The \<^verbatim>\<open>json\<close> module\<close>

text \<open>
  \<^verbatim>\<open>clean_json_content\<close> ends in \<^verbatim>\<open>json.loads(content)\<close>, and \<^verbatim>\<open>process_json_file\<close> writes
  \<^verbatim>\<open>json.dump(json_data, f, indent=2, ensure_ascii=False)\<close>. Both belong to Python's
  standard library, not to the repository; this section models them after CPython's
  \<^verbatim>\<open>json/decoder.py\<close>, \<^verbatim>\<open>_json.c\<close> and \<^verbatim>\<open>json/encoder.py\<close>.

  A parsed value: \<^verbatim>\<open>None\<close>, a \<^verbatim>\<open>bool\<close>, an \<^verbatim>\<open>int\<close>, a \<^verbatim>\<open>float\<close>, a \<^verbatim>\<open>str\<close>, a \<^verbatim>\<open>list\<close>, or a
  \<^verbatim>\<open>dict\<close> with its keys in insertion order. Binary floating point is outside the model: a
  float is kept as the literal that was handed to \<^verbatim>\<open>float()\<close>, and the encoder takes the
  function \<open>floatstr\<close> that gives the text Python prints for it as a parameter.
\<close>

datatype json =
    JNull
  | JBool bool
  | JInt int
  | JFloat pystr
  | JStr pystr
  | JArr "json list"
  | JObj "(pystr \<times> json) list"

abbreviation SPACE :: pychar where "SPACE \<equiv> 32"
abbreviation MINUS :: pychar where "MINUS \<equiv> 45"
abbreviation DOT :: pychar where "DOT \<equiv> 46"
abbreviation COLON :: pychar where "COLON \<equiv> 58"
abbreviation LBRACKET :: pychar where "LBRACKET \<equiv> 91"
abbreviation LBRACE :: pychar where "LBRACE \<equiv> 123"

subsection \<open>\<^verbatim>\<open>JSONDecodeError\<close>\<close>

text \<open>
  \<^verbatim>\<open>s.rfind(c)\<close>, and the constructor \<^verbatim>\<open>JSONDecodeError(msg, doc, pos)\<close>, which sets
  \<^verbatim>\<open>lineno = doc.count('\n', 0, pos) + 1\<close> and \<^verbatim>\<open>colno = pos - doc.rfind('\n', 0, pos)\<close>.
\<close>

definition py_rfind :: "pychar \<Rightarrow> pystr \<Rightarrow> int" where
  "py_rfind c s =
     (if c \<in> set s then int (length s) - 1 - int (length (takeWhile (\<lambda>x. x \<noteq> c) (rev s)))
      else - 1)"

definition json_decode_error :: "pystr \<Rightarrow> pystr \<Rightarrow> nat \<Rightarrow> py_error" where
  "json_decode_error m d p =
     JSONDecodeError m d p (count_list (take p d) LF + 1)
       (nat (int p - py_rfind LF (take p d)))"

subsection \<open>The decoder\<close>

text \<open>
  The scanner works on the rest of the text; a position is given by the number of
  characters from it to the end of the text. \<open>Stop k\<close> is \<^verbatim>\<open>StopIteration(idx)\<close>, which
  the decoder turns into \<^verbatim>\<open>Expecting value\<close>; \<open>Err m k\<close> is a \<^verbatim>\<open>JSONDecodeError\<close> with
  message \<open>m\<close>; \<open>Depth\<close> is \<^verbatim>\<open>RecursionError\<close>.
\<close>

datatype scan_error = Stop nat | Err pystr nat | Depth

definition is_json_ws :: "pychar \<Rightarrow> bool" where
  "is_json_ws c = (c = SPACE \<or> c = TAB \<or> c = LF \<or> c = CR)"

definition skip_ws :: "pystr \<Rightarrow> pystr" where
  "skip_ws s = dropWhile is_json_ws s"

definition is_digit :: "pychar \<Rightarrow> bool" where
  "is_digit c = (48 \<le> c \<and> c \<le> 57)"

definition starts_with :: "pystr \<Rightarrow> pystr \<Rightarrow> bool" where
  "starts_with p s = (take (length p) s = p)"

definition hex_val :: "pychar \<Rightarrow> nat option" where
  "hex_val c =
     (if 48 \<le> c \<and> c \<le> 57 then Some (c - 48)
      else if 97 \<le> c \<and> c \<le> 102 then Some (c - 87)
      else if 65 \<le> c \<and> c \<le> 70 then Some (c - 55)
      else None)"

text \<open>The four hexadecimal digits of a \<^verbatim>\<open>\uXXXX\<close> escape.\<close>

fun hex4 :: "pystr \<Rightarrow> nat option" where
  "hex4 (a # b # c # d # s) =
     (case (hex_val a, hex_val b, hex_val c, hex_val d) of
        (Some w, Some x, Some y, Some z) \<Rightarrow> Some (((w * 16 + x) * 16 + y) * 16 + z)
      | _ \<Rightarrow> None)"
| "hex4 s = None"

text \<open>The escapes other than \<^verbatim>\<open>\u\<close>: the characters \<^verbatim>\<open>" \ / b f n r t\<close>.\<close>

definition unescape :: "pychar \<Rightarrow> pychar option" where
  "unescape e =
     (if e = QUOTE \<or> e = BACKSLASH \<or> e = SLASH then Some e
      else if e = 98 then Some 8
      else if e = 102 then Some 12
      else if e = 110 then Some LF
      else if e = 114 then Some CR
      else if e = 116 then Some TAB
      else None)"

definition add_char :: "pychar \<Rightarrow> scan_error + pystr \<times> pystr \<Rightarrow> scan_error + pystr \<times> pystr"
  where
  "add_char c r = (case r of Inl e \<Rightarrow> Inl e | Inr (str, rest) \<Rightarrow> Inr (c # str, rest))"

definition msg_unterminated :: pystr where
  "msg_unterminated = py ''Unterminated string starting at''"

definition msg_escape :: pystr where
  "msg_escape = py ''Invalid '' @ [BACKSLASH] @ py ''escape''"

definition msg_uXXXX :: pystr where
  "msg_uXXXX = py ''Invalid '' @ [BACKSLASH] @ py ''uXXXX escape''"

text \<open>
  \<^verbatim>\<open>scanstring\<close> (strict), called on the text after the opening quote; \<open>begin\<close> is the
  position of that quote. A high surrogate followed by the escape of a low surrogate
  gives one character.
\<close>

fun scanstring :: "nat \<Rightarrow> pystr \<Rightarrow> scan_error + pystr \<times> pystr" where
  "scanstring begin [] = Inl (Err msg_unterminated begin)"
| "scanstring begin (c # s) =
     (if c = QUOTE then Inr ([], s)
      else if c = BACKSLASH then
        (case s of
           [] \<Rightarrow> Inl (Err msg_unterminated begin)
         | e # s' \<Rightarrow>
             if e \<noteq> 117 then
               (case unescape e of
                  None \<Rightarrow> Inl (Err msg_escape (length s + 1))
                | Some ch \<Rightarrow> add_char ch (scanstring begin s'))
             else
               (case hex4 s' of
                  None \<Rightarrow> Inl (Err msg_uXXXX (length s))
                | Some u \<Rightarrow>
                    if 55296 \<le> u \<and> u \<le> 56319 \<and> starts_with [BACKSLASH, 117] (drop 4 s')
                       \<and> 6 < length (drop 4 s')
                    then
                      (case hex4 (drop 6 s') of
                         None \<Rightarrow> Inl (Err msg_uXXXX (length (drop 5 s')))
                       | Some u2 \<Rightarrow>
                           if 56320 \<le> u2 \<and> u2 \<le> 57343 then
                             add_char (65536 + ((u - 55296) * 1024 + (u2 - 56320)))
                               (scanstring begin (drop 10 s'))
                           else add_char u (scanstring begin (drop 4 s')))
                    else add_char u (scanstring begin (drop 4 s'))))
      else if c \<le> 31 then Inl (Err (py ''Invalid control character at'') (length s + 1))
      else add_char c (scanstring begin s))"

text \<open>
  The number pattern \<^verbatim>\<open>(-?(?:0|[1-9][0-9]*))(\.[0-9]+)?([eE][-+]?[0-9]+)?\<close>: the result
  says whether a fraction or an exponent was matched, and gives the matched text and
  the rest.
\<close>

definition match_int :: "pystr \<Rightarrow> (pystr \<times> pystr) option" where
  "match_int s =
     (let sign = (if head_is MINUS s then [MINUS] else []);
          s1 = drop (length sign) s
      in case s1 of
           [] \<Rightarrow> None
         | c # r \<Rightarrow>
             if 49 \<le> c \<and> c \<le> 57 then
               Some (sign @ c # takeWhile is_digit r, dropWhile is_digit r)
             else if c = 48 then Some (sign @ [c], r)
             else None)"

definition match_frac :: "pystr \<Rightarrow> pystr \<times> pystr" where
  "match_frac s =
     (case s of
        c # d # r \<Rightarrow>
          if c = DOT \<and> is_digit d then (c # d # takeWhile is_digit r, dropWhile is_digit r)
          else ([], s)
      | _ \<Rightarrow> ([], s))"

definition match_exp :: "pystr \<Rightarrow> pystr \<times> pystr" where
  "match_exp s =
     (case s of
        [] \<Rightarrow> ([], s)
      | c # r \<Rightarrow>
          if c = 101 \<or> c = 69 then
            (let sign = (if head_is MINUS r \<or> head_is 43 r then take 1 r else []);
                 r1 = drop (length sign) r;
                 ds = takeWhile is_digit r1
             in if ds = [] then ([], s) else (c # sign @ ds, dropWhile is_digit r1))
          else ([], s))"

definition match_number :: "pystr \<Rightarrow> (bool \<times> pystr \<times> pystr) option" where
  "match_number s =
     (case match_int s of
        None \<Rightarrow> None
      | Some (integer, s1) \<Rightarrow>
          (let (frac, s2) = match_frac s1; (exp, s3) = match_exp s2
           in Some (frac \<noteq> [] \<or> exp \<noteq> [], integer @ frac @ exp, s3)))"

text \<open>\<^verbatim>\<open>int(integer)\<close> for a text that \<open>match_int\<close> matched.\<close>

definition parse_int :: "pystr \<Rightarrow> int" where
  "parse_int s =
     (if head_is MINUS s then - int (foldl (\<lambda>a c. 10 * a + (c - 48)) 0 (drop 1 s))
      else int (foldl (\<lambda>a c. 10 * a + (c - 48)) 0 s))"

text \<open>\<^verbatim>\<open>d[key] = value\<close> on a \<^verbatim>\<open>dict\<close>: a key that is there keeps its place.\<close>

fun dict_set :: "(pystr \<times> json) list \<Rightarrow> pystr \<Rightarrow> json \<Rightarrow> (pystr \<times> json) list" where
  "dict_set [] k v = [(k, v)]"
| "dict_set ((k', v') # d) k v = (if k' = k then (k, v) # d else (k', v') # dict_set d k v)"

definition msg_property_name :: pystr where
  "msg_property_name = py ''Expecting property name enclosed in double quotes''"

definition msg_colon :: pystr where
  "msg_colon = py ''Expecting '' @ [39] @ py '':'' @ [39] @ py '' delimiter''"

definition msg_comma :: pystr where
  "msg_comma = py ''Expecting '' @ [39] @ py '','' @ [39] @ py '' delimiter''"

text \<open>
  \<^verbatim>\<open>scan_once\<close>, and the loops of \<^verbatim>\<open>_parse_object\<close> and \<^verbatim>\<open>_parse_array\<close>, each entered
  where a key or an element is to be read. The first argument bounds the calls that
  are nested or follow one another; CPython bounds the nesting by its recursion limit.
\<close>

fun scan_once :: "nat \<Rightarrow> pystr \<Rightarrow> scan_error + json \<times> pystr"
  and parse_object :: "nat \<Rightarrow> pystr \<Rightarrow> (pystr \<times> json) list \<Rightarrow> scan_error + json \<times> pystr"
  and parse_array :: "nat \<Rightarrow> pystr \<Rightarrow> json list \<Rightarrow> scan_error + json \<times> pystr"
  where
  "scan_once 0 s = Inl Depth"
| "scan_once (Suc n) s =
     (case s of
        [] \<Rightarrow> Inl (Stop 0)
      | c # r \<Rightarrow>
          if c = QUOTE then
            (case scanstring (length s) r of
               Inl e \<Rightarrow> Inl e
             | Inr (str, rest) \<Rightarrow> Inr (JStr str, rest))
          else if c = LBRACE then
            (if head_is RBRACE (skip_ws r) then Inr (JObj [], drop 1 (skip_ws r))
             else parse_object n (skip_ws r) [])
          else if c = LBRACKET then
            (if head_is RBRACKET (skip_ws r) then Inr (JArr [], drop 1 (skip_ws r))
             else parse_array n (skip_ws r) [])
          else if starts_with (py ''null'') s then Inr (JNull, drop 4 s)
          else if starts_with (py ''true'') s then Inr (JBool True, drop 4 s)
          else if starts_with (py ''false'') s then Inr (JBool False, drop 5 s)
          else if starts_with (py ''NaN'') s then Inr (JFloat (py ''NaN''), drop 3 s)
          else if starts_with (py ''Infinity'') s then Inr (JFloat (py ''Infinity''), drop 8 s)
          else if starts_with (py ''-Infinity'') s then
            Inr (JFloat (py ''-Infinity''), drop 9 s)
          else
            (case match_number s of
               None \<Rightarrow> Inl (Stop (length s))
             | Some (is_float, text, rest) \<Rightarrow>
                 Inr (if is_float then JFloat text else JInt (parse_int text), rest)))"
| "parse_object 0 s pairs = Inl Depth"
| "parse_object (Suc n) s pairs =
     (if \<not> head_is QUOTE s then Inl (Err msg_property_name (length s))
      else
        (case scanstring (length s) (drop 1 s) of
           Inl e \<Rightarrow> Inl e
         | Inr (key, s2) \<Rightarrow>
             if \<not> head_is COLON (skip_ws s2) then Inl (Err msg_colon (length (skip_ws s2)))
             else
               (case scan_once n (skip_ws (drop 1 (skip_ws s2))) of
                  Inl e \<Rightarrow> Inl e
                | Inr (val, s5) \<Rightarrow>
                    if head_is RBRACE (skip_ws s5) then
                      Inr (JObj (dict_set pairs key val), drop 1 (skip_ws s5))
                    else if \<not> head_is COMMA (skip_ws s5) then
                      Inl (Err msg_comma (length (skip_ws s5)))
                    else
                      parse_object n (skip_ws (drop 1 (skip_ws s5)))
                        (dict_set pairs key val))))"
| "parse_array 0 s vals = Inl Depth"
| "parse_array (Suc n) s vals =
     (case scan_once n s of
        Inl e \<Rightarrow> Inl e
      | Inr (val, s2) \<Rightarrow>
          if head_is RBRACKET (skip_ws s2) then Inr (JArr (vals @ [val]), drop 1 (skip_ws s2))
          else if \<not> head_is COMMA (skip_ws s2) then Inl (Err msg_comma (length (skip_ws s2)))
          else parse_array n (skip_ws (drop 1 (skip_ws s2))) (vals @ [val]))"

text \<open>
  \<^verbatim>\<open>json.loads(s)\<close> for a \<^verbatim>\<open>str\<close>: the check for a byte-order mark, then
  \<^verbatim>\<open>JSONDecoder.decode\<close>, which allows white space around the one value.
\<close>

definition loads :: "pystr \<Rightarrow> py_error + json" where
  "loads s =
     (if head_is BOM s then
        Inl (json_decode_error (py ''Unexpected UTF-8 BOM (decode using utf-8-sig)'') s 0)
      else
        (case scan_once (2 * length s + 2) (skip_ws s) of
           Inl Depth \<Rightarrow> Inl RecursionError
         | Inl (Stop k) \<Rightarrow> Inl (json_decode_error (py ''Expecting value'') s (length s - k))
         | Inl (Err m k) \<Rightarrow> Inl (json_decode_error m s (length s - k))
         | Inr (obj, rest) \<Rightarrow>
             if skip_ws rest \<noteq> [] then
               Inl (json_decode_error (py ''Extra data'') s (length s - length (skip_ws rest)))
             else Inr obj))"

lemmas scan_numeral [simp] =
  scan_once.simps(2) [where n = "pred_numeral k" for k, folded numeral_eq_Suc]
  parse_object.simps(2) [where n = "pred_numeral k" for k, folded numeral_eq_Suc]
  parse_array.simps(2) [where n = "pred_numeral k" for k, folded numeral_eq_Suc]

subsection \<open>The encoder\<close>

text \<open>
  \<^verbatim>\<open>encode_basestring\<close>, the string encoder for \<^verbatim>\<open>ensure_ascii=False\<close>: the quote, the
  backslash and the characters below 32 are escaped, every other character is written
  as it is.
\<close>

definition hex_digit :: "nat \<Rightarrow> pychar" where
  "hex_digit n = (if n < 10 then 48 + n else 87 + n)"

definition escape_char :: "pychar \<Rightarrow> pystr" where
  "escape_char c =
     (if c = QUOTE then [BACKSLASH, QUOTE]
      else if c = BACKSLASH then [BACKSLASH, BACKSLASH]
      else if c = LF then [BACKSLASH, 110]
      else if c = CR then [BACKSLASH, 114]
      else if c = TAB then [BACKSLASH, 116]
      else if c = 8 then [BACKSLASH, 98]
      else if c = 12 then [BACKSLASH, 102]
      else if c < 32 then [BACKSLASH, 117, 48, 48, hex_digit (c div 16), hex_digit (c mod 16)]
      else [c])"

definition encode_basestring :: "pystr \<Rightarrow> pystr" where
  "encode_basestring s = QUOTE # concat (map escape_char s) @ [QUOTE]"

text \<open>\<^verbatim>\<open>int.__repr__\<close>.\<close>

function nat_str :: "nat \<Rightarrow> pystr" where
  "nat_str n = (if n < 10 then [48 + n] else nat_str (n div 10) @ [48 + n mod 10])"
  by pat_completeness auto
termination
  by (relation "measure id") auto

declare nat_str.simps [simp del]

definition int_str :: "int \<Rightarrow> pystr" where
  "int_str i = (if i < 0 then MINUS # nat_str (nat (- i)) else nat_str (nat i))"

text \<open>
  \<^verbatim>\<open>_iterencode\<close> with \<^verbatim>\<open>indent=2\<close>, for which the item separator is a comma and the key
  separator a colon and a space; \<open>level\<close> is \<^verbatim>\<open>_current_indent_level\<close>. The text written
  to the file is the concatenation of the chunks it yields.
\<close>

definition newline_indent :: "nat \<Rightarrow> pystr" where
  "newline_indent level = LF # replicate (2 * level) SPACE"

fun iterencode :: "(pystr \<Rightarrow> pystr) \<Rightarrow> nat \<Rightarrow> json \<Rightarrow> pystr" where
  "iterencode floatstr level (JStr s) = encode_basestring s"
| "iterencode floatstr level JNull = py ''null''"
| "iterencode floatstr level (JBool b) = (if b then py ''true'' else py ''false'')"
| "iterencode floatstr level (JInt i) = int_str i"
| "iterencode floatstr level (JFloat f) = floatstr f"
| "iterencode floatstr level (JArr lst) =
     (if lst = [] then py ''[]''
      else [LBRACKET] @ newline_indent (level + 1)
        @ py_join (COMMA # newline_indent (level + 1))
            (map (iterencode floatstr (level + 1)) lst)
        @ newline_indent level @ [RBRACKET])"
| "iterencode floatstr level (JObj dct) =
     (if dct = [] then py ''{}''
      else [LBRACE] @ newline_indent (level + 1)
        @ py_join (COMMA # newline_indent (level + 1))
            (map (\<lambda>(key, value).
                   encode_basestring key @ py '': '' @ iterencode floatstr (level + 1) value)
               dct)
        @ newline_indent level @ [RBRACE])"

definition dumps :: "(pystr \<Rightarrow> pystr) \<Rightarrow> json \<Rightarrow> pystr" where
  "dumps floatstr obj = iterencode floatstr 0 obj"

section \<open>\<^verbatim>\<open>clean_json_content\<close> and \<^verbatim>\<open>process_json_file\<close>\<close>

text \<open>\<^verbatim>\<open>xs[i]\<close> for any integer, and \<^verbatim>\<open>s.split(c)\<close> for a one-character separator.\<close>

definition py_getitem :: "'a list \<Rightarrow> int \<Rightarrow> py_error + 'a" where
  "py_getitem xs i =
     (let j = (if i < 0 then i + int (length xs) else i)
      in if 0 \<le> j \<and> j < int (length xs) then Inr (xs ! nat j) else Inl IndexError)"

fun py_split :: "pychar \<Rightarrow> pystr \<Rightarrow> pystr list" where
  "py_split c [] = [[]]"
| "py_split c (x # s) =
     (if x = c then [] # py_split c s
      else (case py_split c s of [] \<Rightarrow> [[x]] | l # ls \<Rightarrow> (x # l) # ls))"

text \<open>
  \<^verbatim>\<open>clean_json_content\<close>. The result is the list of the lines it prints and either the
  value it returns or the exception it raises. A \<^verbatim>\<open>JSONDecodeError\<close> is printed, with
  the text of the line it points to, and raised again; any other exception goes through.
\<close>

definition error_report :: "pystr \<Rightarrow> py_error \<Rightarrow> pystr list \<times> (py_error + json)" where
  "error_report content e =
     (case e of
        JSONDecodeError m d p l c \<Rightarrow>
          (let lines = py_split LF content
           in case (if int l \<le> int (length lines) then py_getitem lines (int l - 1)
                    else Inr (py ''Line not found'')) of
                Inl e' \<Rightarrow> ([], Inl e')
              | Inr error_line \<Rightarrow>
                  ([py ''Error at line '' @ int_str (int l) @ py '':'',
                    py ''Content: '' @ error_line,
                    py ''Position: '' @ replicate c SPACE @ py ''^''],
                   Inl e))
      | _ \<Rightarrow> ([], Inl e))"

definition clean_json_content :: "pystr \<Rightarrow> pystr list \<times> (py_error + json)" where
  "clean_json_content content =
     (case remove_comments_from_json_string (preprocess content) of
        Inl e \<Rightarrow> ([], Inl e)
      | Inr cleaned \<Rightarrow>
          (case loads cleaned of
             Inr v \<Rightarrow> ([], Inr v)
           | Inl e \<Rightarrow> error_report cleaned e))"



section \<open>The diagnostic of \<^verbatim>\<open>clean_json_content\<close>\<close>

text \<open>
  \<open>last_seg s\<close> is what follows the last newline of \<open>s\<close>. The line of
  \<^verbatim>\<open>doc.split('\n')\<close> that \<open>lineno\<close> selects is made of the last segment of the text before
  the error position and of the text from that position to the next newline.
\<close>

lemma py_split_not_Nil [simp]: "py_split c s \<noteq> []"
  by (induction s) (auto split: list.splits)

lemma hd_py_split: "hd (py_split c s) = takeWhile (\<lambda>x. x \<noteq> c) s"
  by (induction s) (auto split: list.splits)

definition last_seg :: "pystr \<Rightarrow> pystr" where
  "last_seg s = rev (takeWhile (\<lambda>x. x \<noteq> LF) (rev s))"

lemma last_seg_Nil [simp]: "last_seg [] = []"
  by (simp add: last_seg_def)

lemma last_seg_no_LF: "LF \<notin> set s \<Longrightarrow> last_seg s = s"
proof -
  assume "LF \<notin> set s"
  then have eq: "takeWhile (\<lambda>x. x \<noteq> LF) (rev s) = rev s"
    by (auto simp: takeWhile_eq_all_conv)
  show ?thesis unfolding last_seg_def eq by simp
qed

lemma last_seg_Cons:
  "last_seg (x # s) = (if LF \<in> set s \<or> x = LF then last_seg s else x # s)"
proof (cases "LF \<in> set s")
  case True
  then have "takeWhile (\<lambda>x. x \<noteq> LF) (rev s @ [x]) = takeWhile (\<lambda>x. x \<noteq> LF) (rev s)"
    by (subst takeWhile_append1 [where x = LF]) auto
  with True show ?thesis by (simp add: last_seg_def)
next
  case False
  then have "takeWhile (\<lambda>x. x \<noteq> LF) (rev s @ [x]) = rev s @ takeWhile (\<lambda>x. x \<noteq> LF) [x]"
    by (subst takeWhile_append2) auto
  with False show ?thesis by (simp add: last_seg_def last_seg_no_LF [of s, unfolded last_seg_def])
qed

lemma count_list_0: "count_list s x = 0 \<longleftrightarrow> x \<notin> set s"
  by (induction s) auto

lemma py_split_line:
  "p \<le> length d \<Longrightarrow>
     count_list (take p d) LF < length (py_split LF d) \<and>
     py_split LF d ! count_list (take p d) LF =
       last_seg (take p d) @ takeWhile (\<lambda>x. x \<noteq> LF) (drop p d)"
proof (induction d arbitrary: p)
  case Nil
  then show ?case by simp
next
  case (Cons x d)
  show ?case
  proof (cases p)
    case 0
    have "hd (py_split LF (x # d)) = takeWhile (\<lambda>x. x \<noteq> LF) (x # d)"
      by (rule hd_py_split)
    moreover have "py_split LF (x # d) \<noteq> []" by (rule py_split_not_Nil)
    ultimately have "py_split LF (x # d) ! 0 = takeWhile (\<lambda>x. x \<noteq> LF) (x # d)"
      by (metis hd_conv_nth)
    moreover have "0 < length (py_split LF (x # d))"
      using py_split_not_Nil [of LF "x # d"] by simp
    ultimately show ?thesis using 0 by simp
  next
    case (Suc q)
    with Cons.prems have q: "q \<le> length d" by simp
    note IH = Cons.IH [OF q]
    obtain l ls where sp: "py_split LF d = l # ls"
      by (cases "py_split LF d") auto
    show ?thesis
    proof (cases "x = LF")
      case True
      with IH show ?thesis by (simp add: Suc last_seg_Cons)
    next
      case False
      show ?thesis
      proof (cases "LF \<in> set (take q d)")
        case True
        then have "count_list (take q d) LF \<noteq> 0" by (simp add: count_list_0)
        then obtain k where k: "count_list (take q d) LF = Suc k" by (cases "count_list (take q d) LF") auto
        with IH False True show ?thesis by (simp add: Suc sp last_seg_Cons)
      next
        case nl: False
        then have z: "count_list (take q d) LF = 0" by (simp add: count_list_0)
        with IH False nl show ?thesis by (simp add: Suc sp last_seg_Cons last_seg_no_LF)
      qed
    qed
  qed
qed

lemma nat_1_int: "nat (1 + int n) = Suc n"
  by simp

lemma colno_last_seg:
  "p \<le> length d \<Longrightarrow> nat (int p - py_rfind LF (take p d)) = length (last_seg (take p d)) + 1"
proof -
  assume p: "p \<le> length d"
  have le: "length (takeWhile (\<lambda>x. x \<noteq> LF) (rev (take p d))) \<le> length (rev (take p d))"
    by (rule length_takeWhile_le)
  show ?thesis
  proof (cases "LF \<in> set (take p d)")
    case True
    with p le show ?thesis by (simp add: py_rfind_def last_seg_def min_def nat_1_int)
  next
    case False
    with p show ?thesis by (simp add: py_rfind_def last_seg_no_LF min_def)
  qed
qed

lemma loads_error:
  "loads s = Inl (JSONDecodeError m d p l c) \<Longrightarrow>
     d = s \<and> p \<le> length s \<and> l = count_list (take p s) LF + 1
     \<and> c = nat (int p - py_rfind LF (take p s))"
  by (auto simp: loads_def json_decode_error_def split: if_splits sum.splits scan_error.splits prod.splits)


lemmas json_eval = py_def loads_def skip_ws_def is_json_ws_def starts_with_def match_number_def
  match_int_def match_frac_def match_exp_def is_digit_def parse_int_def add_char_def unescape_def
  hex_val_def json_decode_error_def py_rfind_def msg_unterminated_def msg_escape_def msg_uXXXX_def
  msg_property_name_def msg_colon_def msg_comma_def

lemmas clean_eval = clean_json_content_def preprocess_def strip_bom_def keep_char_def
  remove_comments_from_json_string_def remove_line_comments_view remove_block_comments_view
  remove_empty_lines_def py_strip_def is_space_def is_linebreak_def put_def out_def error_report_def
  py_getitem_def

lemmas dumps_eval = dumps_def encode_basestring_def escape_char_def newline_indent_def int_str_def
  hex_digit_def nat_str.simps

lemma replicate_numeral_Cons: "replicate (numeral k) x = x # replicate (pred_numeral k) x"
  by (simp add: numeral_eq_Suc)

lemma remove_comments_total:
  "\<exists>cleaned. remove_comments_from_json_string s = Inr cleaned"
  by (simp add: remove_comments_from_json_string_def remove_line_comments_view
      remove_block_comments_view)

lemma error_report_raises: "snd (error_report content e) = Inl e"
proof (cases e)
  case (JSONDecodeError m d p l c)
  have len: "0 < length (py_split LF content)" by simp
  show ?thesis
  proof (cases "int l \<le> int (length (py_split LF content))")
    case True
    with len have "\<exists>x. py_getitem (py_split LF content) (int l - 1) = Inr x"
      by (auto simp: py_getitem_def Let_def)
    with True show ?thesis
      by (auto simp: error_report_def JSONDecodeError Let_def)
  next
    case False
    then show ?thesis
      by (simp add: error_report_def JSONDecodeError Let_def)
  qed
qed (simp_all add: error_report_def)

lemma clean_json_content_error:
  assumes "snd (clean_json_content raw) = Inl e"
  shows "\<exists>cleaned. remove_comments_from_json_string (preprocess raw) = Inr cleaned
     \<and> loads cleaned = Inl e"
proof -
  obtain cleaned where c: "remove_comments_from_json_string (preprocess raw) = Inr cleaned"
    using remove_comments_total by blast
  show ?thesis
  proof (cases "loads cleaned")
    case (Inl e')
    with assms c have "e' = e" by (simp add: clean_json_content_def error_report_raises)
    with Inl c show ?thesis by simp
  next
    case (Inr v)
    with assms c show ?thesis by (simp add: clean_json_content_def)
  qed
qed

lemma error_report_printed:
  assumes "1 \<le> l" "l \<le> length (py_split LF content)"
  shows "fst (error_report content (JSONDecodeError m d p l c)) ! 1 =
     py ''Content: '' @ py_split LF content ! (l - 1)"
proof -
  from assms have "py_getitem (py_split LF content) (int l - 1) = Inr (py_split LF content ! (l - 1))"
    by (auto simp: py_getitem_def Let_def nat_diff_distrib')
  with assms show ?thesis by (simp add: error_report_def Let_def)
qed

text \<open>
  C8. When the cleaned text does not parse, \<^verbatim>\<open>clean_json_content\<close> raises the decoder's
  \<^verbatim>\<open>JSONDecodeError\<close> again; its document is the cleaned text, its line and column
  count from 1, the line it prints after \<^verbatim>\<open>Content:\<close> is the text of line \<open>lineno\<close> of
  the cleaned text, and column \<open>colno\<close> of that line is the character at the error
  position (unless that position is a line end or the end of the text, where the
  column is one past the end of the line). The witness is the input \<^verbatim>\<open>{"a": }\<close>: line
  1, column 7, which is the closing brace.
\<close>

theorem diagnostic_position:
  assumes "clean_json_content raw = (printed, Inl (JSONDecodeError m d p l c))"
  shows "remove_comments_from_json_string (preprocess raw) = Inr d
     \<and> 1 \<le> l \<and> 1 \<le> c \<and> l \<le> length (py_split LF d)
     \<and> printed ! 1 = py ''Content: '' @ py_split LF d ! (l - 1)
     \<and> c - 1 \<le> length (py_split LF d ! (l - 1))
     \<and> (p < length d \<and> d ! p \<noteq> LF \<longrightarrow> py_split LF d ! (l - 1) ! (c - 1) = d ! p)"
proof -
  from assms have "snd (clean_json_content raw) = Inl (JSONDecodeError m d p l c)" by simp
  from clean_json_content_error [OF this] obtain cleaned where
    cl: "remove_comments_from_json_string (preprocess raw) = Inr cleaned"
    and lo: "loads cleaned = Inl (JSONDecodeError m d p l c)" by blast
  from loads_error [OF lo] have d: "d = cleaned" and p: "p \<le> length d"
    and l: "l = count_list (take p d) LF + 1"
    and c: "c = nat (int p - py_rfind LF (take p d))" by auto
  from py_split_line [OF p] have lt: "count_list (take p d) LF < length (py_split LF d)"
    and line: "py_split LF d ! count_list (take p d) LF =
       last_seg (take p d) @ takeWhile (\<lambda>x. x \<noteq> LF) (drop p d)" by auto
  from c colno_last_seg [OF p] have c': "c = length (last_seg (take p d)) + 1" by simp
  have pr: "printed = fst (error_report d (JSONDecodeError m d p l c))"
    using assms cl lo d by (simp add: clean_json_content_def)
  have l1: "1 \<le> l" and l2: "l \<le> length (py_split LF d)" using l lt by auto
  have "printed ! 1 = py ''Content: '' @ py_split LF d ! (l - 1)"
    unfolding pr by (rule error_report_printed [OF l1 l2])
  moreover have "p < length d \<and> d ! p \<noteq> LF \<longrightarrow> py_split LF d ! (l - 1) ! (c - 1) = d ! p"
  proof
    assume a: "p < length d \<and> d ! p \<noteq> LF"
    then have "drop p d = d ! p # drop (Suc p) d" by (simp add: Cons_nth_drop_Suc)
    with a have "takeWhile (\<lambda>x. x \<noteq> LF) (drop p d) = d ! p # takeWhile (\<lambda>x. x \<noteq> LF) (drop (Suc p) d)"
      by simp
    with line show "py_split LF d ! (l - 1) ! (c - 1) = d ! p"
      by (simp add: l c' nth_append)
  qed
  ultimately show ?thesis
    using cl d l1 l2 line by (simp add: l c')
qed

theorem diagnostic_position_witness:
  \<open>clean_json_content (py ''{"a": }'')
     = ([py ''Error at line 1:'', py ''Content: {"a": }'', py ''Position:        ^''],
        Inl (JSONDecodeError (py ''Expecting value'') (py ''{"a": }'') 6 1 7))
   \<and> py_split LF (py ''{"a": }'') ! (1 - 1) ! (7 - 1) = RBRACE\<close>
proof -
  have e: \<open>clean_json_content (py ''{"a": }'')
     = ([py ''Error at line 1:'', py ''Content: {"a": }'', py ''Position:        ^''],
        Inl (JSONDecodeError (py ''Expecting value'') (py ''{"a": }'') 6 1 7))\<close>
    by (simp add: clean_eval json_eval dumps_eval replicate_numeral_Cons)
  from diagnostic_position [OF e] e show ?thesis
    by (simp add: py_def)
qed

section \<open>Which stage can fail\<close>

text \<open>\<open>has_star_slash s\<close>: the text \<open>s\<close> contains \<^verbatim>\<open>*/\<close>.\<close>

fun has_star_slash :: "pystr \<Rightarrow> bool" where
  "has_star_slash (c # d # s) = ((c = STAR \<and> d = SLASH) \<or> has_star_slash (d # s))"
| "has_star_slash s = False"

lemma has_star_slash_tl: "\<not> has_star_slash (c # s) \<Longrightarrow> \<not> has_star_slash s"
  by (cases s) auto

lemma has_star_slash_drop: "\<not> has_star_slash s \<Longrightarrow> \<not> has_star_slash (drop k s)"
proof (induction k arbitrary: s)
  case 0
  then show ?case by simp
next
  case (Suc k)
  then show ?case by (cases s) (auto dest: has_star_slash_tl)
qed

lemma block_view_unterminated:
  "\<not> has_star_slash s \<Longrightarrow> block_view (True, ins, esc) s = []"
proof (induction s arbitrary: ins esc rule: length_induct)
  case (1 s)
  show ?case
  proof (cases s)
    case Nil
    then show ?thesis by simp
  next
    case (Cons c r)
    have r: "\<not> has_star_slash r" using 1(2) Cons by (auto dest: has_star_slash_tl)
    then have r1: "\<not> has_star_slash (drop 1 r)" by (rule has_star_slash_drop)
    have IH: "\<And>t ins esc. length t \<le> length r \<Longrightarrow> \<not> has_star_slash t \<Longrightarrow>
        block_view (True, ins, esc) t = []"
      using 1(1) Cons by simp
    have a: "\<And>ins esc. block_view (True, ins, esc) r = []" using IH r by simp
    have b: "\<And>ins esc. block_view (True, ins, esc) (drop (Suc 0) r) = []" using IH r1 by simp
    have nc: "\<not> (c = STAR \<and> head_is SLASH r)"
      using 1(2) Cons by (cases r) auto
    show ?thesis
      using nc by (auto simp: Cons a b out_def)
  qed
qed

text \<open>
  C7. The stages before the validator raise nothing: for every raw input
  \<^verbatim>\<open>remove_comments_from_json_string\<close> returns a text, and when \<^verbatim>\<open>clean_json_content\<close>
  raises, the exception is the one \<^verbatim>\<open>json.loads\<close> raised on that text. When the block
  scan is inside a comment and no \<^verbatim>\<open>*/\<close> follows, it runs to the end of the text without
  an exception and adds nothing to \<open>cleaned\<close>: the rest of the input is discarded.
\<close>

theorem only_validator_fails:
  "(\<exists>content. remove_comments_from_json_string (preprocess raw) = Inr content
      \<and> (\<forall>e. snd (clean_json_content raw) = Inl e \<longrightarrow> loads content = Inl e))
   \<and> (\<not> has_star_slash (drop i json_str) \<longrightarrow>
        (\<exists>j in_comment' in_string' escape_next'.
           block_loop json_str (i, True, in_string, escape_next, cleaned) =
             Inr (j, in_comment', in_string', escape_next', cleaned)))"
proof
  obtain content where t: "remove_comments_from_json_string (preprocess raw) = Inr content"
    using remove_comments_total by blast
  have "\<forall>e. snd (clean_json_content raw) = Inl e \<longrightarrow> loads content = Inl e"
    using clean_json_content_error [of raw] t by auto
  with t show "\<exists>content. remove_comments_from_json_string (preprocess raw) = Inr content
      \<and> (\<forall>e. snd (clean_json_content raw) = Inl e \<longrightarrow> loads content = Inl e)" by blast
next
  show "\<not> has_star_slash (drop i json_str) \<longrightarrow>
        (\<exists>j in_comment' in_string' escape_next'.
           block_loop json_str (i, True, in_string, escape_next, cleaned) =
             Inr (j, in_comment', in_string', escape_next', cleaned))"
  proof
    assume "\<not> has_star_slash (drop i json_str)"
    then have "block_view (True, in_string, escape_next) (drop i json_str) = []"
      by (rule block_view_unterminated)
    with block_loop_view [of json_str i True in_string escape_next cleaned]
    show "\<exists>j in_comment' in_string' escape_next'.
           block_loop json_str (i, True, in_string, escape_next, cleaned) =
             Inr (j, in_comment', in_string', escape_next', cleaned)"
      by (cases "block_loop json_str (i, True, in_string, escape_next, cleaned)") auto
  qed
qed

theorem only_validator_fails_witness:
  \<open>remove_comments_from_json_string (preprocess (py ''[1 /* open'')) = Inr (py ''[1 '')
   \<and> snd (clean_json_content (py ''[1 /* open''))
       = Inl (JSONDecodeError (py ''Expecting '' @ [39] @ py '','' @ [39] @ py '' delimiter'')
               (py ''[1 '') 3 1 4)
   \<and> loads (py ''[1 '')
       = Inl (JSONDecodeError (py ''Expecting '' @ [39] @ py '','' @ [39] @ py '' delimiter'')
               (py ''[1 '') 3 1 4)
   \<and> \<not> has_star_slash (drop 5 (py ''[1 /* open''))
   \<and> (\<exists>j in_comment' in_string' escape_next'.
        block_loop (py ''[1 /* open'') (5, True, False, False, py ''[1 '')
          = Inr (j, in_comment', in_string', escape_next', py ''[1 ''))\<close>
proof -
  have l: \<open>loads (py ''[1 '')
       = Inl (JSONDecodeError (py ''Expecting '' @ [39] @ py '','' @ [39] @ py '' delimiter'')
               (py ''[1 '') 3 1 4)\<close>
    by (simp add: json_eval)
  have c: \<open>remove_comments_from_json_string (preprocess (py ''[1 /* open'')) = Inr (py ''[1 '')\<close>
    by (simp add: clean_eval py_def)
  have h: \<open>\<not> has_star_slash (drop 5 (py ''[1 /* open''))\<close>
    by (simp add: py_def)
  from only_validator_fails [of \<open>py ''[1 /* open''\<close> 5 \<open>py ''[1 /* open''\<close> False False \<open>py ''[1 ''\<close>]
    l c h show ?thesis
    by (simp add: clean_json_content_def error_report_raises)
qed

section \<open>The text written back\<close>






section \<open>Texts that the cleaning leaves as they are\<close>



text \<open>The lines of a text whose only line boundary is the newline.\<close>

fun lf_lines :: "pystr \<Rightarrow> pystr list" where
  "lf_lines [] = []"
| "lf_lines (c # s) =
     (if c = LF then [] # lf_lines s
      else (case lf_lines s of [] \<Rightarrow> [[c]] | l # ls \<Rightarrow> (c # l) # ls))"







lemma lf_lines_Cons:
  "c \<noteq> LF \<Longrightarrow> lf_lines s = l # ls \<Longrightarrow> lf_lines (c # s) = (c # l) # ls"
  by simp













end
